theory Spec2Isabelle
  imports Complex_Main "HOL-Library.Multiset"
begin

section \<open>The outbox queue (stores/syncStore.ts, types/syncQueue.ts)\<close>

text \<open>
  Times are milliseconds since the epoch, as \<open>Date.now()\<close> returns them. The request
  body is opaque to the queue and kept as its JSON text.
\<close>

datatype http_method = GET | POST | PUT | DELETE | PATCH

text \<open>
  A value of a field typed \<open>Date\<close>. The store is persisted as JSON, which writes a \<open>Date\<close> as
  its ISO string and reads it back as that string: an entry made or updated since the
  store was loaded holds \<open>Date\<close> objects, an entry loaded from storage holds strings. Either
  way the value denotes an instant.
\<close>

datatype js_date = DateObject int | IsoString int

fun instant :: "js_date \<Rightarrow> int" where
  "instant (DateObject t) = t"
| "instant (IsoString t) = t"

text \<open>
  \<open>Omit<QueuedRequest, 'id' | 'attempts' | 'createdAt'>\<close>, the argument type of
  \<open>addToQueue\<close>; \<open>QueuedRequest\<close> adds the three omitted fields.
\<close>

record RequestInput =
  url :: string
  method_q :: http_method
  body :: "string option"
  headers :: "(string \<times> string) list option"
  maxAttempts :: "nat option"
  lastAttemptAt :: "js_date option"
  nextRetryAt :: "js_date option"
  requestId :: "string option"

record QueuedRequest = RequestInput +
  id_q :: string
  attempts :: nat
  createdAt :: js_date

text \<open>
  The part of the zustand store that \<open>persist\<close> and the actions read and write.
\<close>

record SyncStore =
  queue :: "QueuedRequest list"
  isProcessing :: bool

text \<open>
  What \<open>await fetch(...)\<close> yields inside the \<open>try\<close> block: a response with its status
  code, or a rejection, which lands in the \<open>catch\<close> block.
\<close>

datatype outcome = Response nat | NetworkError

text \<open>\<open>response.ok\<close> of the Fetch API: the status lies in 200..299.\<close>

definition ok :: "nat \<Rightarrow> bool" where
  "ok status \<longleftrightarrow> 200 \<le> status \<and> status \<le> 299"

definition removeFromQueue :: "string \<Rightarrow> SyncStore \<Rightarrow> SyncStore" where
  "removeFromQueue i st = st\<lparr>queue := filter (\<lambda>item. id_q item \<noteq> i) (queue st)\<rparr>"

text \<open>
  \<open>updateRequest(id, updates)\<close> maps over the queue and merges \<open>updates\<close> into every item
  with that id; the merge \<open>{...item, ...updates}\<close> is the function \<open>upd\<close>.
\<close>

definition updateRequest ::
  "string \<Rightarrow> (QueuedRequest \<Rightarrow> QueuedRequest) \<Rightarrow> SyncStore \<Rightarrow> SyncStore" where
  "updateRequest i upd st =
     st\<lparr>queue := map (\<lambda>item. if id_q item = i then upd item else item) (queue st)\<rparr>"

definition clearQueue :: "SyncStore \<Rightarrow> SyncStore" where
  "clearQueue st = st\<lparr>queue := []\<rparr>"

definition getQueueLength :: "SyncStore \<Rightarrow> nat" where
  "getQueueLength st = length (queue st)"

text \<open>
  \<open>Math.min(30000 * Math.pow(2, attempts - 1), 300000)\<close>. The argument is always
  \<open>action.attempts + 1\<close>, so the exponent is never negative; where the double
  overflows to \<open>Infinity\<close> the minimum is 300000, as it is here.
\<close>

definition backoffMs :: "nat \<Rightarrow> int" where
  "backoffMs n = min (30000 * 2 ^ (n - 1)) 300000"

text \<open>
  The merge object of the 5xx branch: \<open>{attempts, lastAttemptAt: new Date(), nextRetryAt}\<close>
  with \<open>nextRetryAt = new Date(Date.now() + backoffMs)\<close>. Both clock reads happen in one
  synchronous block and are taken as the one instant \<open>now\<close>.
\<close>

definition retryUpdates :: "QueuedRequest \<Rightarrow> int \<Rightarrow> QueuedRequest \<Rightarrow> QueuedRequest" where
  "retryUpdates action now item =
     (let attempts' = attempts action + 1;
          backoff = backoffMs attempts';
          nextRetry = now + backoff
      in item\<lparr>attempts := attempts', lastAttemptAt := Some (DateObject now),
              nextRetryAt := Some (DateObject nextRetry)\<rparr>)"

text \<open>
  One iteration of the \<open>for\<close> loop of \<open>processQueue\<close> from the point where the fetch has
  settled. The boolean is False where the source executes \<open>break\<close>.
\<close>

fun handleOutcome :: "QueuedRequest \<Rightarrow> outcome \<Rightarrow> int \<Rightarrow> SyncStore \<Rightarrow> SyncStore \<times> bool" where
  "handleOutcome action NetworkError now st = (st, False)"
| "handleOutcome action (Response status) now st =
     (if ok status then (removeFromQueue (id_q action) st, True)
      else if status \<ge> 500 then
        (updateRequest (id_q action) (retryUpdates action now) st, False)
      else if status \<ge> 400 then (removeFromQueue (id_q action) st, True)
      else (st, True))"

text \<open>
  The loop over the snapshot \<open>const { queue } = get()\<close>. The environment \<open>env\<close> gives,
  for the loop index \<open>i\<close>, how the fetch of that iteration settles and the clock at that
  moment. The second component of the state lists the ids for which \<open>fetch\<close> was called,
  in call order.
\<close>

fun processLoop ::
  "(nat \<Rightarrow> outcome \<times> int) \<Rightarrow> nat \<Rightarrow> QueuedRequest list \<Rightarrow> SyncStore \<times> string list
     \<Rightarrow> SyncStore \<times> string list" where
  "processLoop env i [] (st, fetched) = (st, fetched)"
| "processLoop env i (action # rest) (st, fetched) =
     (case handleOutcome action (fst (env i)) (snd (env i)) st of
        (st', continue) \<Rightarrow>
          if continue then processLoop env (i + 1) rest (st', fetched @ [id_q action])
          else (st', fetched @ [id_q action]))"

definition processQueue ::
  "(nat \<Rightarrow> outcome \<times> int) \<Rightarrow> SyncStore \<times> string list \<Rightarrow> SyncStore \<times> string list" where
  "processQueue env w =
     (case w of (st, fetched) \<Rightarrow>
        if queue st = [] then (st\<lparr>isProcessing := False\<rparr>, fetched)
        else (case processLoop env 0 (queue st) (st\<lparr>isProcessing := True\<rparr>, fetched) of
                (st', fetched') \<Rightarrow> (st'\<lparr>isProcessing := False\<rparr>, fetched')))"

text \<open>
  \<open>addToQueue(request)\<close>. The generated id, the clock and the generated request id come
  from the environment (\<open>Date.now()\<close>, \<open>Math.random()\<close>). In \<open>request.requestId || ...\<close>
  the empty string is falsy, like \<open>undefined\<close>.
\<close>

definition newRequest :: "RequestInput \<Rightarrow> string \<Rightarrow> int \<Rightarrow> string \<Rightarrow> QueuedRequest" where
  "newRequest request genId now genRequestId =
     \<lparr>url = url request, method_q = method_q request, body = body request,
      headers = headers request, maxAttempts = maxAttempts request,
      lastAttemptAt = lastAttemptAt request, nextRetryAt = nextRetryAt request,
      requestId = Some (case requestId request of
                          None \<Rightarrow> genRequestId
                        | Some r \<Rightarrow> if r = [] then genRequestId else r),
      id_q = genId, attempts = 0, createdAt = DateObject now\<rparr>"

text \<open>
  Run to completion, with no other task interleaved: the call of \<open>processQueue\<close> inside
  \<open>addToQueue\<close> is taken together with the pass it starts.
\<close>

definition addToQueue ::
  "RequestInput \<Rightarrow> string \<Rightarrow> int \<Rightarrow> string \<Rightarrow> (nat \<Rightarrow> outcome \<times> int)
     \<Rightarrow> SyncStore \<times> string list \<Rightarrow> SyncStore \<times> string list" where
  "addToQueue request genId now genRequestId env w =
     (case w of (st, fetched) \<Rightarrow>
        let st' = st\<lparr>queue := queue st @ [newRequest request genId now genRequestId]\<rparr>
        in if \<not> isProcessing st' then processQueue env (st', fetched) else (st', fetched))"

text \<open>
  The outcomes on which the loop body executes \<open>break\<close>: the \<open>catch\<close> block, and the
  branch \<open>response.status >= 500\<close> (never taken together with \<open>response.ok\<close>).
\<close>

fun stopsPass :: "outcome \<Rightarrow> bool" where
  "stopsPass NetworkError = True"
| "stopsPass (Response code) = (500 \<le> code)"

text \<open>Several passes one after the other, each run to completion in its own environment.\<close>

fun drainPasses ::
  "(nat \<Rightarrow> outcome \<times> int) list \<Rightarrow> SyncStore \<times> string list \<Rightarrow> SyncStore \<times> string list" where
  "drainPasses [] w = w"
| "drainPasses (env # envs) w = drainPasses envs (processQueue env w)"

text \<open>
  The retry delay an entry carries: the instant of \<open>nextRetryAt\<close> minus the instant of
  \<open>lastAttemptAt\<close>, where both are set.
\<close>

definition delayOf :: "QueuedRequest \<Rightarrow> int option" where
  "delayOf r = (case (nextRetryAt r, lastAttemptAt r) of
                  (Some n, Some l) \<Rightarrow> Some (instant n - instant l)
                | _ \<Rightarrow> None)"

text \<open>The outcomes the loop body passes over: a response with a status in 300..399.\<close>

fun is3xx :: "outcome \<Rightarrow> bool" where
  "is3xx NetworkError = False"
| "is3xx (Response code) = (300 \<le> code \<and> code \<le> 399)"

text \<open>
  In a pass over the snapshot \<open>snap\<close>, whose first entry has loop index \<open>i\<close>, every
  delivery the pass makes of an entry with the id \<open>x\<close> returns a status in 300..399.
  Entries behind the one that ends the pass are not delivered and not looked at.
\<close>

fun redirected :: "(nat \<Rightarrow> outcome \<times> int) \<Rightarrow> nat \<Rightarrow> QueuedRequest list \<Rightarrow> string \<Rightarrow> bool" where
  "redirected env i [] x = True"
| "redirected env i (action # rest) x =
     ((if id_q action = x then is3xx (fst (env i)) else True) \<and>
      (if stopsPass (fst (env i)) then True else redirected env (i + 1) rest x))"

text \<open>The same of each of several passes run one after the other.\<close>

fun redirectedIn ::
  "(nat \<Rightarrow> outcome \<times> int) list \<Rightarrow> SyncStore \<times> string list \<Rightarrow> string \<Rightarrow> bool" where
  "redirectedIn [] w i = True"
| "redirectedIn (env # envs) w i =
     (redirected env 0 (queue (fst w)) i \<and> redirectedIn envs (processQueue env w) i)"

section \<open>The asynchronous store and its triggers (syncStore.ts, QueueManager.ts)\<close>

text \<open>
  \<open>processQueue\<close> is an async function: it runs synchronously up to \<open>await fetch(...)\<close>,
  and any other callback may run before the fetch settles. A pass that is suspended at
  its \<open>await\<close> is the entry \<open>queue[i]\<close> it is delivering together with the rest
  \<open>queue[i+1..]\<close> of its snapshot.
\<close>

record Pass =
  awaiting :: QueuedRequest
  remaining :: "QueuedRequest list"

record Runtime =
  store :: SyncStore
  inflight :: "Pass list"
  fetchLog :: "string list"

text \<open>
  The synchronous prefix of \<open>processQueue()\<close>: the early return on an empty queue, or the
  flag set, the snapshot taken and the first \<open>fetch\<close> issued.
\<close>

definition processQueue_call :: "Runtime \<Rightarrow> Runtime" where
  "processQueue_call rt =
     (case queue (store rt) of
        [] \<Rightarrow> rt\<lparr>store := (store rt)\<lparr>isProcessing := False\<rparr>\<rparr>
      | action # rest \<Rightarrow>
          rt\<lparr>store := (store rt)\<lparr>isProcessing := True\<rparr>,
             inflight := inflight rt @ [\<lparr>awaiting = action, remaining = rest\<rparr>],
             fetchLog := fetchLog rt @ [id_q action]\<rparr>)"

text \<open>
  The fetch awaited by the \<open>k\<close>-th suspended pass settles: the loop body runs, then either
  the next iteration issues its fetch and suspends again, or the loop is left (by
  \<open>break\<close> or at the end of the snapshot) and \<open>set({ isProcessing: false })\<close> runs.
\<close>

definition processQueue_resume :: "nat \<Rightarrow> outcome \<Rightarrow> int \<Rightarrow> Runtime \<Rightarrow> Runtime" where
  "processQueue_resume k oc now rt =
     (if k < length (inflight rt) then
        (let p = inflight rt ! k in
         case handleOutcome (awaiting p) oc now (store rt) of
           (st', continue) \<Rightarrow>
             (case (if continue then remaining p else []) of
                [] \<Rightarrow>
                  rt\<lparr>store := st'\<lparr>isProcessing := False\<rparr>,
                     inflight := take k (inflight rt) @ drop (Suc k) (inflight rt)\<rparr>
              | next # rest \<Rightarrow>
                  rt\<lparr>store := st',
                     inflight := (inflight rt)[k := \<lparr>awaiting = next, remaining = rest\<rparr>],
                     fetchLog := fetchLog rt @ [id_q next]\<rparr>))
      else rt)"

definition addToQueue_call ::
  "RequestInput \<Rightarrow> string \<Rightarrow> int \<Rightarrow> string \<Rightarrow> Runtime \<Rightarrow> Runtime" where
  "addToQueue_call request genId now genRequestId rt =
     (let rt' = rt\<lparr>store := (store rt)\<lparr>queue := queue (store rt) @
                                      [newRequest request genId now genRequestId]\<rparr>\<rparr>
      in if \<not> isProcessing (store rt') then processQueue_call rt' else rt')"

text \<open>
  \<open>request.nextRetryAt && request.nextRetryAt <= now\<close> of the timer callback, where \<open>now\<close>
  is a \<open>Date\<close>. A missing value is falsy. Two \<open>Date\<close> objects compare by their instants. An
  ISO string is truthy, but in \<open>string <= Date\<close> the string is converted to a number, which
  gives \<open>NaN\<close>, and every comparison with \<open>NaN\<close> is false.
\<close>

fun readyAt :: "js_date option \<Rightarrow> int \<Rightarrow> bool" where
  "readyAt None now = False"
| "readyAt (Some (DateObject t)) now = (t \<le> now)"
| "readyAt (Some (IsoString t)) now = False"

text \<open>
  The timer callback of \<open>QueueManager.initialize\<close>:
  \<open>queue.some(request => request.nextRetryAt && request.nextRetryAt <= now)\<close>.
\<close>

definition hasReadyRequests :: "QueuedRequest list \<Rightarrow> int \<Rightarrow> bool" where
  "hasReadyRequests q now = list_ex (\<lambda>request. readyAt (nextRetryAt request) now) q"

datatype app_state = Active | Background | Inactive | Unknown | Extension

text \<open>
  Everything that can run between two suspension points: a caller enqueues, one of the
  listeners registered by \<open>QueueManager.initialize\<close> fires (NetInfo with \<open>isConnected\<close> and
  \<open>isInternetReachable\<close>, each possibly null; AppState; the 30 s interval at time \<open>now\<close>),
  \<open>queueManager.processQueue()\<close> is called by hand, or a pending fetch settles.
\<close>

datatype event =
    Enqueue RequestInput string int string
  | NetInfoChange "bool option" "bool option"
  | AppStateChange app_state
  | Interval int
  | Manual
  | Settled nat outcome int

fun step :: "event \<Rightarrow> Runtime \<Rightarrow> Runtime" where
  "step (Enqueue request genId now genRequestId) rt =
     addToQueue_call request genId now genRequestId rt"
| "step (NetInfoChange isConnected isInternetReachable) rt =
     (if isConnected = Some True \<and> isInternetReachable = Some True
      then processQueue_call rt else rt)"
| "step (AppStateChange nextAppState) rt =
     (if nextAppState = Active then processQueue_call rt else rt)"
| "step (Interval now) rt =
     (if hasReadyRequests (queue (store rt)) now then processQueue_call rt else rt)"
| "step Manual rt = processQueue_call rt"
| "step (Settled k oc now) rt = processQueue_resume k oc now rt"

fun run :: "event list \<Rightarrow> Runtime \<Rightarrow> Runtime" where
  "run [] rt = rt"
| "run (ev # evs) rt = run evs (step ev rt)"

text \<open>The store as created: \<open>queue: [], isProcessing: false\<close>, nothing in flight.\<close>

definition initial :: Runtime where
  "initial = \<lparr>store = \<lparr>queue = [], isProcessing = False\<rparr>, inflight = [], fetchLog = []\<rparr>"

section \<open>The local order table (repositories/BasketRepository.ts)\<close>

text \<open>
  A row of \<open>local_orders\<close>, column for column. Timestamps are milliseconds since the
  epoch; \<open>number\<close> columns holding amounts are reals.
\<close>

record LocalOrderRow =
  id_o :: string
  platform_order_id :: "string option"
  platform :: "string option"
  items :: string
  subtotal :: real
  tax :: real
  total :: real
  discount_amount :: "real option"
  discount_code :: "string option"
  customer_email :: "string option"
  customer_name :: "string option"
  note_o :: "string option"
  payment_method :: "string option"
  payment_transaction_id :: "string option"
  cashier_id :: "string option"
  cashier_name :: "string option"
  status :: string
  sync_status :: string
  sync_error :: "string option"
  created_at :: int
  updated_at :: int
  paid_at :: "int option"
  synced_at :: "int option"

type_synonym local_orders = "LocalOrderRow list"

text \<open>
  \<open>SELECT * FROM local_orders WHERE status = 'paid' AND sync_status != 'synced'
  ORDER BY created_at ASC\<close>. SQL leaves the order of rows with equal \<open>created_at\<close> open;
  the stable sort used here is one admissible order.
\<close>

definition findUnsyncedOrders :: "local_orders \<Rightarrow> LocalOrderRow list" where
  "findUnsyncedOrders tbl =
     sort_key created_at
       (filter (\<lambda>r. status r = ''paid'' \<and> sync_status r \<noteq> ''synced'') tbl)"

text \<open>
  An \<open>UPDATE local_orders SET ... WHERE id = ?\<close> rewrites every row with that id and no
  other.
\<close>

definition update_where_id ::
  "string \<Rightarrow> (LocalOrderRow \<Rightarrow> LocalOrderRow) \<Rightarrow> local_orders \<Rightarrow> local_orders" where
  "update_where_id orderId f tbl = map (\<lambda>r. if id_o r = orderId then f r else r) tbl"

definition updateOrderStatus :: "string \<Rightarrow> string \<Rightarrow> int \<Rightarrow> local_orders \<Rightarrow> local_orders" where
  "updateOrderStatus orderId newStatus now tbl =
     update_where_id orderId (\<lambda>r. r\<lparr>status := newStatus, updated_at := now\<rparr>) tbl"

definition updateOrderPayment ::
  "string \<Rightarrow> string \<Rightarrow> string option \<Rightarrow> int \<Rightarrow> local_orders \<Rightarrow> local_orders" where
  "updateOrderPayment orderId paymentMethod transactionId now tbl =
     update_where_id orderId
       (\<lambda>r. r\<lparr>status := ''paid'', payment_method := Some paymentMethod,
              payment_transaction_id := transactionId, paid_at := Some now,
              updated_at := now\<rparr>) tbl"

definition updateOrderSyncSuccess ::
  "string \<Rightarrow> string \<Rightarrow> int \<Rightarrow> local_orders \<Rightarrow> local_orders" where
  "updateOrderSyncSuccess orderId platformOrderId now tbl =
     update_where_id orderId
       (\<lambda>r. r\<lparr>platform_order_id := Some platformOrderId, sync_status := ''synced'',
              synced_at := Some now, updated_at := now\<rparr>) tbl"

definition updateOrderSyncError ::
  "string \<Rightarrow> string \<Rightarrow> string \<Rightarrow> int \<Rightarrow> local_orders \<Rightarrow> local_orders" where
  "updateOrderSyncError orderId syncStatus errorMessage now tbl =
     update_where_id orderId
       (\<lambda>r. r\<lparr>sync_status := syncStatus, sync_error := Some errorMessage,
              updated_at := now\<rparr>) tbl"

text \<open>The four updates of the repository as one operation type, with the id each addresses.\<close>

datatype repo_update =
    UpdateOrderStatus string string
  | UpdateOrderPayment string string "string option"
  | UpdateOrderSyncSuccess string string
  | UpdateOrderSyncError string string string

fun addressed :: "repo_update \<Rightarrow> string" where
  "addressed (UpdateOrderStatus orderId _) = orderId"
| "addressed (UpdateOrderPayment orderId _ _) = orderId"
| "addressed (UpdateOrderSyncSuccess orderId _) = orderId"
| "addressed (UpdateOrderSyncError orderId _ _) = orderId"

fun writes_sync_columns :: "repo_update \<Rightarrow> bool" where
  "writes_sync_columns (UpdateOrderStatus _ _) = False"
| "writes_sync_columns (UpdateOrderPayment _ _ _) = False"
| "writes_sync_columns (UpdateOrderSyncSuccess _ _) = True"
| "writes_sync_columns (UpdateOrderSyncError _ _ _) = True"

fun apply_update :: "repo_update \<Rightarrow> int \<Rightarrow> local_orders \<Rightarrow> local_orders" where
  "apply_update (UpdateOrderStatus orderId newStatus) now tbl =
     updateOrderStatus orderId newStatus now tbl"
| "apply_update (UpdateOrderPayment orderId paymentMethod transactionId) now tbl =
     updateOrderPayment orderId paymentMethod transactionId now tbl"
| "apply_update (UpdateOrderSyncSuccess orderId platformOrderId) now tbl =
     updateOrderSyncSuccess orderId platformOrderId now tbl"
| "apply_update (UpdateOrderSyncError orderId syncStatus errorMessage) now tbl =
     updateOrderSyncError orderId syncStatus errorMessage now tbl"

text \<open>The sync state of an order: the four columns the sync engine records its outcome in.\<close>

definition sync_state ::
  "LocalOrderRow \<Rightarrow> string \<times> string option \<times> int option \<times> string option" where
  "sync_state r = (sync_status r, sync_error r, synced_at r, platform_order_id r)"

section \<open>Sample data for the concrete instances\<close>

definition sampleInput :: RequestInput where
  "sampleInput = \<lparr>url = ''https://shop.example/api/orders'', method_q = POST,
     body = Some ''{}'', headers = None, maxAttempts = None, lastAttemptAt = None,
     nextRetryAt = None, requestId = None\<rparr>"

text \<open>A queue entry with the given id, attempt count, cap and retry time.\<close>

definition sampleEntry ::
  "string \<Rightarrow> nat \<Rightarrow> nat option \<Rightarrow> js_date option \<Rightarrow> QueuedRequest" where
  "sampleEntry i n cap retryAt = \<lparr>url = ''https://shop.example/api/orders'', method_q = POST,
     body = Some ''{}'', headers = None, maxAttempts = cap, lastAttemptAt = None,
     nextRetryAt = retryAt, requestId = Some ''req_1'', id_q = i, attempts = n,
     createdAt = DateObject 0\<rparr>"

definition sampleOrder :: "string \<Rightarrow> string \<Rightarrow> string \<Rightarrow> int \<Rightarrow> LocalOrderRow" where
  "sampleOrder i st sst created = \<lparr>id_o = i, platform_order_id = None, platform = None,
     items = ''[]'', subtotal = 0, tax = 0, total = 0, discount_amount = None,
     discount_code = None, customer_email = None, customer_name = None, note_o = None,
     payment_method = None, payment_transaction_id = None, cashier_id = None,
     cashier_name = None, status = st, sync_status = sst, sync_error = None,
     created_at = created, updated_at = created, paid_at = None, synced_at = None\<rparr>"

text \<open>An environment in which every fetch of the pass settles the same way at the same time.\<close>

definition sameOutcome :: "outcome \<Rightarrow> int \<Rightarrow> nat \<Rightarrow> outcome \<times> int" where
  "sameOutcome oc now i = (oc, now)"

section \<open>Properties of the outbox queue\<close>

subsection \<open>Auxiliary facts about one pass\<close>

lemma handleOutcome_continue: "snd (handleOutcome action oc now st) = (\<not> stopsPass oc)"
  by (cases oc) (auto simp: ok_def)

lemma fetched_processLoop:
  "snd (processLoop env i snap (st, fetched)) =
     fetched @ map id_q (take (Suc (length (takeWhile (\<lambda>k. \<not> stopsPass (fst (env k)))
                                                     [i..<i + length snap]))) snap)"
proof (induction snap arbitrary: i st fetched)
  case Nil
  then show ?case by simp
next
  case (Cons action rest)
  obtain st' c where h: "handleOutcome action (fst (env i)) (snd (env i)) st = (st', c)"
    by (cases "handleOutcome action (fst (env i)) (snd (env i)) st") auto
  have c: "c = (\<not> stopsPass (fst (env i)))"
    using handleOutcome_continue [of action "fst (env i)" "snd (env i)" st] h by simp
  have upt: "[i..<i + length (action # rest)] = i # [Suc i..<Suc i + length rest]"
    by (simp add: upt_rec)
  show ?case
  proof (cases c)
    case True
    then show ?thesis using h c Cons.IH [of "Suc i" st' "fetched @ [id_q action]"] upt
      by simp
  next
    case False
    then show ?thesis using h c upt by simp
  qed
qed

lemma ids_handleOutcome_stop:
  "stopsPass oc \<Longrightarrow>
     map id_q (queue (fst (handleOutcome action oc now st))) = map id_q (queue st)"
  by (cases oc) (auto simp: ok_def updateRequest_def retryUpdates_def Let_def)

lemma caps_handleOutcome_stop:
  "stopsPass oc \<Longrightarrow>
     map maxAttempts (queue (fst (handleOutcome action oc now st))) = map maxAttempts (queue st)"
  by (cases oc) (auto simp: ok_def updateRequest_def retryUpdates_def Let_def)

lemma pass_head_fails:
  assumes "stopsPass (fst (env 0))" and "queue st = entry # others"
  shows "map id_q (queue (fst (processQueue env (st, fetched)))) = map id_q (queue st) \<and>
         map maxAttempts (queue (fst (processQueue env (st, fetched)))) =
           map maxAttempts (queue st) \<and>
         snd (processQueue env (st, fetched)) = fetched @ [id_q entry]"
proof -
  let ?st = "st\<lparr>isProcessing := True\<rparr>"
  obtain st' c where h: "handleOutcome entry (fst (env 0)) (snd (env 0)) ?st = (st', c)"
    by (cases "handleOutcome entry (fst (env 0)) (snd (env 0)) ?st") auto
  have c: "\<not> c"
    using handleOutcome_continue [of entry "fst (env 0)" "snd (env 0)" ?st] h assms(1) by simp
  have i: "map id_q (queue st') = map id_q (queue st)"
    using ids_handleOutcome_stop [of "fst (env 0)" entry "snd (env 0)" ?st] assms(1) h by simp
  have m: "map maxAttempts (queue st') = map maxAttempts (queue st)"
    using caps_handleOutcome_stop [of "fst (env 0)" entry "snd (env 0)" ?st] assms(1) h by simp
  show ?thesis using assms(2) h c i m by (simp add: processQueue_def)
qed

subsection \<open>Auxiliary facts about the backoff\<close>

lemma backoffMs_mono: "backoffMs n \<le> backoffMs (Suc n)"
  unfolding backoffMs_def by (cases n) (auto simp: min_def)

lemma backoffMs_le: "backoffMs n \<le> 300000"
  by (simp add: backoffMs_def)

lemma backoffMs_ceiling: "5 \<le> n \<Longrightarrow> backoffMs n = 300000"
proof -
  assume "5 \<le> n"
  then have "4 \<le> n - 1" by simp
  then have "(2::int) ^ 4 \<le> 2 ^ (n - 1)" by (intro power_increasing) simp_all
  then have "(300000::int) \<le> 30000 * 2 ^ (n - 1)" by simp
  then show ?thesis by (simp add: backoffMs_def min_def)
qed

lemma backoffMs_below: "n < 5 \<Longrightarrow> backoffMs n < 300000"
proof -
  assume "n < 5"
  then consider "n = 0" | "n = 1" | "n = 2" | "n = 3" | "n = 4" by linarith
  then show ?thesis by cases (simp_all add: backoffMs_def)
qed

subsection \<open>Auxiliary facts about the recorded delay\<close>

lemma pass_head_5xx:
  assumes "fst (env 0) = Response code" and "500 \<le> code" and "queue st = entry # others"
  shows "\<exists>e' others'. queue (fst (processQueue env (st, fetched))) = e' # others' \<and>
           id_q e' = id_q entry \<and> attempts e' = attempts entry + 1 \<and>
           delayOf e' = Some (backoffMs (attempts e'))"
  using assms
  by (simp add: processQueue_def ok_def updateRequest_def retryUpdates_def Let_def delayOf_def)

lemma pass_head_network_error:
  assumes "fst (env 0) = NetworkError" and "queue st = entry # others"
  shows "queue (fst (processQueue env (st, fetched))) = entry # others"
  using assms by (simp add: processQueue_def)

lemma pass_head_retryable:
  assumes "stopsPass (fst (env 0))" and "queue st = entry # others"
    and "delayOf entry = Some (backoffMs (attempts entry))"
  shows "\<exists>e' others'. queue (fst (processQueue env (st, fetched))) = e' # others' \<and>
           id_q e' = id_q entry \<and>
           (attempts e' = attempts entry \<or> attempts e' = attempts entry + 1) \<and>
           delayOf e' = Some (backoffMs (attempts e'))"
proof (cases "fst (env 0)")
  case NetworkError
  then show ?thesis using pass_head_network_error [of env st entry others fetched] assms by simp
next
  case (Response code)
  then have "500 \<le> code" using assms(1) by simp
  then show ?thesis using pass_head_5xx [of env code st entry others fetched] Response assms(2)
    by blast
qed

lemma passes_head_retryable:
  assumes "\<forall>env \<in> set envs. stopsPass (fst (env 0))" and "queue st = entry # others"
    and "delayOf entry = Some (backoffMs (attempts entry))"
  shows "\<exists>e' others'. queue (fst (drainPasses envs (st, fetched))) = e' # others' \<and>
           id_q e' = id_q entry \<and> attempts entry \<le> attempts e' \<and>
           delayOf e' = Some (backoffMs (attempts e'))"
  using assms
proof (induction envs arbitrary: st fetched entry others)
  case Nil
  then show ?case by simp
next
  case (Cons env envs)
  obtain st1 f1 where w: "processQueue env (st, fetched) = (st1, f1)"
    by (cases "processQueue env (st, fetched)") auto
  have s: "stopsPass (fst (env 0))" using Cons.prems(1) by simp
  from pass_head_retryable [of env st entry others fetched] s Cons.prems(2,3) w
  obtain e1 o1 where q1: "queue st1 = e1 # o1" and i1: "id_q e1 = id_q entry"
    and a1: "attempts e1 = attempts entry \<or> attempts e1 = attempts entry + 1"
    and d1: "delayOf e1 = Some (backoffMs (attempts e1))"
    by auto
  have r: "\<forall>env \<in> set envs. stopsPass (fst (env 0))" using Cons.prems(1) by simp
  from Cons.IH [of st1 e1 o1 f1] r q1 d1
  obtain e' others' where "queue (fst (drainPasses envs (st1, f1))) = e' # others'"
    "id_q e' = id_q e1" "attempts e1 \<le> attempts e'" "delayOf e' = Some (backoffMs (attempts e'))"
    by blast
  then show ?case using w i1 a1 by auto
qed

lemma drainPasses_append: "drainPasses (xs @ ys) w = drainPasses ys (drainPasses xs w)"
  by (induction xs arbitrary: w) simp_all

text \<open>
  In passes run one after the other, each to its end, the delay recorded for the head
  entry never decreases from one failure to the next, never exceeds 300000 ms, and is
  300000 ms exactly from five counted attempts on.
\<close>

lemma backoff_monotone_in_sequential_passes:
  assumes "fst (env0 0) = Response code" and "500 \<le> code"
    and "\<forall>e \<in> set envs. stopsPass (fst (e 0))"
    and "stopsPass (fst (env 0))"
    and "queue st = entry # others"
  shows "\<exists>e1 others1 e2 others2 d1 d2.
           queue (fst (drainPasses (env0 # envs) (st, fetched))) = e1 # others1 \<and>
           queue (fst (drainPasses (env0 # envs @ [env]) (st, fetched))) = e2 # others2 \<and>
           id_q e1 = id_q entry \<and> id_q e2 = id_q entry \<and>
           delayOf e1 = Some d1 \<and> delayOf e2 = Some d2 \<and>
           d1 \<le> d2 \<and> d2 \<le> 300000 \<and> (5 \<le> attempts e1) = (d1 = 300000)"
proof -
  obtain st0 f0 where w0: "processQueue env0 (st, fetched) = (st0, f0)"
    by (cases "processQueue env0 (st, fetched)") auto
  from pass_head_5xx [of env0 code st entry others fetched] assms(1,2,5) w0
  obtain e0 o0 where q0: "queue st0 = e0 # o0" and i0: "id_q e0 = id_q entry"
    and d0: "delayOf e0 = Some (backoffMs (attempts e0))"
    by auto
  obtain stA fA where wA: "drainPasses envs (st0, f0) = (stA, fA)"
    by (cases "drainPasses envs (st0, f0)") auto
  from passes_head_retryable [of envs st0 e0 o0 f0] assms(3) q0 d0 wA
  obtain e1 o1 where q1: "queue stA = e1 # o1" and i1: "id_q e1 = id_q e0"
    and d1: "delayOf e1 = Some (backoffMs (attempts e1))"
    by auto
  from pass_head_retryable [of env stA e1 o1 fA] assms(4) q1 d1
  obtain e2 o2 where q2: "queue (fst (processQueue env (stA, fA))) = e2 # o2"
    and i2: "id_q e2 = id_q e1"
    and a2: "attempts e2 = attempts e1 \<or> attempts e2 = attempts e1 + 1"
    and d2: "delayOf e2 = Some (backoffMs (attempts e2))"
    by blast
  have pA: "drainPasses (env0 # envs) (st, fetched) = (stA, fA)" using w0 wA by simp
  have "drainPasses (env0 # envs @ [env]) (st, fetched) =
          drainPasses [env] (drainPasses (env0 # envs) (st, fetched))"
    using drainPasses_append [of "env0 # envs" "[env]" "(st, fetched)"] by simp
  then have pB: "drainPasses (env0 # envs @ [env]) (st, fetched) = processQueue env (stA, fA)"
    using pA by simp
  have m: "backoffMs (attempts e1) \<le> backoffMs (attempts e2)"
    using a2 backoffMs_mono [of "attempts e1"] by auto
  have l: "backoffMs (attempts e2) \<le> 300000" by (rule backoffMs_le)
  have c: "(5 \<le> attempts e1) = (backoffMs (attempts e1) = 300000)"
    using backoffMs_ceiling [of "attempts e1"] backoffMs_below [of "attempts e1"] by fastforce
  have A: "queue (fst (drainPasses (env0 # envs) (st, fetched))) = e1 # o1" using pA q1 by simp
  have B: "queue (fst (drainPasses (env0 # envs @ [env]) (st, fetched))) = e2 # o2"
    using pB q2 by simp
  have I1: "id_q e1 = id_q entry" using i1 i0 by simp
  have I2: "id_q e2 = id_q entry" using i2 I1 by simp
  show ?thesis using A B I1 I2 d1 d2 m l c by blast
qed

subsection \<open>Auxiliary facts about entries a pass leaves alone\<close>

lemma kept_handleOutcome:
  assumes "entry \<in> set (queue st)" and "id_q action = id_q entry \<longrightarrow> is3xx oc"
  shows "entry \<in> set (queue (fst (handleOutcome action oc now st)))"
proof (cases oc)
  case NetworkError
  then show ?thesis using assms by simp
next
  case (Response code)
  show ?thesis
  proof (cases "id_q action = id_q entry")
    case True
    then have "300 \<le> code \<and> code \<le> 399" using assms(2) Response by simp
    then show ?thesis using assms(1) Response by (simp add: ok_def)
  next
    case False
    then show ?thesis using assms(1) Response
      by (auto simp: ok_def removeFromQueue_def updateRequest_def)
  qed
qed

lemma kept_processLoop:
  assumes "entry \<in> set (queue st)" and "redirected env i snap (id_q entry)"
  shows "entry \<in> set (queue (fst (processLoop env i snap (st, fetched))))"
  using assms
proof (induction snap arbitrary: i st fetched)
  case Nil
  then show ?case by simp
next
  case (Cons action rest)
  obtain st' c where h: "handleOutcome action (fst (env i)) (snd (env i)) st = (st', c)"
    by (cases "handleOutcome action (fst (env i)) (snd (env i)) st") auto
  have c: "c = (\<not> stopsPass (fst (env i)))"
    using handleOutcome_continue [of action "fst (env i)" "snd (env i)" st] h by simp
  have a: "id_q action = id_q entry \<longrightarrow> is3xx (fst (env i))"
    using Cons.prems(2) by (simp split: if_splits)
  have k: "entry \<in> set (queue st')"
    using kept_handleOutcome [OF Cons.prems(1) a, of "snd (env i)"] h by simp
  show ?case
  proof (cases c)
    case True
    then have r: "redirected env (Suc i) rest (id_q entry)"
      using Cons.prems(2) c by (simp split: if_splits)
    show ?thesis using True h Cons.IH [OF k r, of "fetched @ [id_q action]"] by simp
  next
    case False
    then show ?thesis using h k by simp
  qed
qed

lemma kept_processQueue:
  assumes "entry \<in> set (queue st)" and "redirected env 0 (queue st) (id_q entry)"
  shows "entry \<in> set (queue (fst (processQueue env (st, fetched))))"
proof -
  have q: "queue st \<noteq> []" using assms(1) by auto
  have e: "entry \<in> set (queue (st\<lparr>isProcessing := True\<rparr>))" using assms(1) by simp
  obtain st' f' where
    p: "processLoop env 0 (queue st) (st\<lparr>isProcessing := True\<rparr>, fetched) = (st', f')"
    by (cases "processLoop env 0 (queue st) (st\<lparr>isProcessing := True\<rparr>, fetched)") auto
  have "entry \<in> set (queue st')" using kept_processLoop [OF e assms(2), of fetched] p by simp
  then show ?thesis using q p by (simp add: processQueue_def)
qed

lemma kept_drainPasses:
  assumes "entry \<in> set (queue st)" and "redirectedIn envs (st, fetched) (id_q entry)"
  shows "entry \<in> set (queue (fst (drainPasses envs (st, fetched))))"
  using assms
proof (induction envs arbitrary: st fetched)
  case Nil
  then show ?case by simp
next
  case (Cons env envs)
  obtain st1 f1 where w: "processQueue env (st, fetched) = (st1, f1)"
    by (cases "processQueue env (st, fetched)") auto
  have r1: "redirected env 0 (queue st) (id_q entry)" using Cons.prems(2) by simp
  have k: "entry \<in> set (queue st1)" using kept_processQueue [OF Cons.prems(1) r1, of fetched] w by simp
  have r2: "redirectedIn envs (st1, f1) (id_q entry)" using Cons.prems(2) w by simp
  show ?case using Cons.IH [OF k r2] w by simp
qed

lemma reached_processLoop:
  assumes "j < length snap"
  shows "(length fetched + j < length (snd (processLoop env i snap (st, fetched)))) =
           (\<forall>k<j. \<not> stopsPass (fst (env (i + k))))"
  using assms
proof (induction snap arbitrary: i j st fetched)
  case Nil
  then show ?case by simp
next
  case (Cons action rest)
  obtain st' c where h: "handleOutcome action (fst (env i)) (snd (env i)) st = (st', c)"
    by (cases "handleOutcome action (fst (env i)) (snd (env i)) st") auto
  have c: "c = (\<not> stopsPass (fst (env i)))"
    using handleOutcome_continue [of action "fst (env i)" "snd (env i)" st] h by simp
  show ?case
  proof (cases j)
    case 0
    have "length fetched < length (snd (processLoop env i (action # rest) (st, fetched)))"
      using fetched_processLoop [of env i "action # rest" st fetched] by simp
    then show ?thesis using 0 by simp
  next
    case (Suc j')
    then have j': "j' < length rest" using Cons.prems by simp
    have split: "(\<forall>k<Suc j'. \<not> stopsPass (fst (env (i + k)))) =
           (\<not> stopsPass (fst (env i)) \<and> (\<forall>k<j'. \<not> stopsPass (fst (env (Suc i + k)))))"
      by (simp add: All_less_Suc2)
    show ?thesis
    proof (cases c)
      case True
      then show ?thesis
        using h c Suc split Cons.IH [OF j', of "fetched @ [id_q action]" "Suc i" st'] by simp
    next
      case False
      then show ?thesis using h c Suc split by simp
    qed
  qed
qed

lemma reached_processQueue:
  assumes "j < length (queue st)"
  shows "(length fetched + j < length (snd (processQueue env (st, fetched)))) =
           (\<forall>k<j. \<not> stopsPass (fst (env k)))"
proof -
  have q: "queue st \<noteq> []" using assms by auto
  obtain st' f' where
    p: "processLoop env 0 (queue st) (st\<lparr>isProcessing := True\<rparr>, fetched) = (st', f')"
    by (cases "processLoop env 0 (queue st) (st\<lparr>isProcessing := True\<rparr>, fetched)") auto
  have "(length fetched + j < length f') = (\<forall>k<j. \<not> stopsPass (fst (env (0 + k))))"
    using reached_processLoop [OF assms, of fetched env 0 "st\<lparr>isProcessing := True\<rparr>"] p
    by simp
  then show ?thesis using q p by (simp add: processQueue_def)
qed

lemma nth_fetched_processQueue:
  assumes "length fetched + j < length (snd (processQueue env (st, fetched)))"
  shows "snd (processQueue env (st, fetched)) ! (length fetched + j) = id_q (queue st ! j)"
proof (cases "queue st = []")
  case True
  then show ?thesis using assms by (simp add: processQueue_def)
next
  case False
  let ?n = "Suc (length (takeWhile (\<lambda>k. \<not> stopsPass (fst (env k)))
                           [0..<0 + length (queue st)]))"
  obtain st' f' where
    p: "processLoop env 0 (queue st) (st\<lparr>isProcessing := True\<rparr>, fetched) = (st', f')"
    by (cases "processLoop env 0 (queue st) (st\<lparr>isProcessing := True\<rparr>, fetched)") auto
  have f: "f' = fetched @ map id_q (take ?n (queue st))"
    using fetched_processLoop [of env 0 "queue st" "st\<lparr>isProcessing := True\<rparr>" fetched] p
    by simp
  have s: "snd (processQueue env (st, fetched)) = f'" using False p by (simp add: processQueue_def)
  have j: "j < length (take ?n (queue st))" using assms s f by simp
  then have "f' ! (length fetched + j) = id_q (take ?n (queue st) ! j)"
    using f by (simp add: nth_append)
  then show ?thesis using s j by simp
qed

subsection \<open>Auxiliary facts about the asynchronous store\<close>

lemma run_snoc: "run (evs @ [ev]) rt = step ev (run evs rt)"
  by (induction evs arbitrary: rt) simp_all

lemma queue_processQueue_call: "queue (store (processQueue_call rt)) = queue (store rt)"
  by (simp add: processQueue_call_def split: list.splits)

lemma ids_addToQueue_call:
  "set (map id_q (queue (store rt))) \<subseteq>
     set (map id_q (queue (store (addToQueue_call request genId now genRequestId rt))))"
  by (auto simp: addToQueue_call_def Let_def queue_processQueue_call)

lemma handleOutcome_removes:
  assumes "i \<in> set (map id_q (queue st))"
    and "i \<notin> set (map id_q (queue (fst (handleOutcome action oc now st))))"
  shows "\<exists>code. oc = Response code \<and> id_q action = i \<and>
           ((200 \<le> code \<and> code \<le> 299) \<noteq> (400 \<le> code \<and> code \<le> 499)) \<and>
           snd (handleOutcome action oc now st)"
proof (cases oc)
  case NetworkError
  then show ?thesis using assms by simp
next
  case (Response code)
  have upd: "map id_q (queue (updateRequest (id_q action) (retryUpdates action now) st)) = map id_q (queue st)"
    by (auto simp: updateRequest_def retryUpdates_def Let_def)
  show ?thesis
  proof (cases "ok code")
    case True
    then show ?thesis using assms Response by (auto simp: ok_def removeFromQueue_def)
  next
    case False
    show ?thesis
    proof (cases "500 \<le> code")
      case True
      then show ?thesis using assms Response False upd by simp
    next
      case f5: False
      show ?thesis
      proof (cases "400 \<le> code")
        case True
        then show ?thesis using assms Response False f5 by (auto simp: ok_def removeFromQueue_def)
      next
        case f4: False
        then show ?thesis using assms Response False f5 by simp
      qed
    qed
  qed
qed

lemma resume_continue:
  assumes "k < length (inflight rt)"
    and "handleOutcome (awaiting (inflight rt ! k)) oc now (store rt) = (st', True)"
  shows "processQueue_resume k oc now rt =
     (case remaining (inflight rt ! k) of
        [] \<Rightarrow> rt\<lparr>store := st'\<lparr>isProcessing := False\<rparr>,
                 inflight := take k (inflight rt) @ drop (Suc k) (inflight rt)\<rparr>
      | next # rest \<Rightarrow>
          rt\<lparr>store := st',
             inflight := (inflight rt)[k := \<lparr>awaiting = next, remaining = rest\<rparr>],
             fetchLog := fetchLog rt @ [id_q next]\<rparr>)"
  using assms by (simp add: processQueue_resume_def Let_def)

lemma queue_resume:
  assumes "k < length (inflight rt)"
  shows "queue (store (processQueue_resume k oc now rt)) =
           queue (fst (handleOutcome (awaiting (inflight rt ! k)) oc now (store rt)))"
proof -
  obtain st' c where h: "handleOutcome (awaiting (inflight rt ! k)) oc now (store rt) = (st', c)"
    by (cases "handleOutcome (awaiting (inflight rt ! k)) oc now (store rt)") auto
  show ?thesis
  proof (cases "if c then remaining (inflight rt ! k) else []")
    case Nil
    then show ?thesis using assms h by (simp add: processQueue_resume_def Let_def)
  next
    case (Cons n r)
    then show ?thesis using assms h by (simp add: processQueue_resume_def Let_def)
  qed
qed

lemma resume_removes:
  assumes "i \<in> set (map id_q (queue (store rt)))"
    and "i \<notin> set (map id_q (queue (store (processQueue_resume k oc now rt))))"
  shows "\<exists>code. oc = Response code \<and> k < length (inflight rt) \<and>
           id_q (awaiting (inflight rt ! k)) = i \<and>
           ((200 \<le> code \<and> code \<le> 299) \<noteq> (400 \<le> code \<and> code \<le> 499)) \<and>
           (case remaining (inflight rt ! k) of
              [] \<Rightarrow> inflight (processQueue_resume k oc now rt) =
                      take k (inflight rt) @ drop (Suc k) (inflight rt) \<and>
                    fetchLog (processQueue_resume k oc now rt) = fetchLog rt
            | next # rest \<Rightarrow>
                inflight (processQueue_resume k oc now rt) =
                  (inflight rt)[k := \<lparr>awaiting = next, remaining = rest\<rparr>] \<and>
                fetchLog (processQueue_resume k oc now rt) = fetchLog rt @ [id_q next])"
proof -
  have k: "k < length (inflight rt)"
  proof (rule ccontr)
    assume "\<not> k < length (inflight rt)"
    then have "processQueue_resume k oc now rt = rt" by (simp add: processQueue_resume_def)
    then show False using assms by simp
  qed
  let ?p = "inflight rt ! k"
  obtain st' c where h: "handleOutcome (awaiting ?p) oc now (store rt) = (st', c)"
    by (cases "handleOutcome (awaiting ?p) oc now (store rt)") auto
  have "i \<notin> set (map id_q (queue (fst (handleOutcome (awaiting ?p) oc now (store rt)))))"
    using assms(2) queue_resume [OF k, of oc now] by simp
  from handleOutcome_removes [OF assms(1) this] h
  obtain code where r: "oc = Response code" "id_q (awaiting ?p) = i"
      "(200 \<le> code \<and> code \<le> 299) \<noteq> (400 \<le> code \<and> code \<le> 499)" "c"
    by auto
  have h': "handleOutcome (awaiting ?p) oc now (store rt) = (st', True)" using h r(4) by simp
  have e: "processQueue_resume k oc now rt =
     (case remaining ?p of
        [] \<Rightarrow> rt\<lparr>store := st'\<lparr>isProcessing := False\<rparr>,
                 inflight := take k (inflight rt) @ drop (Suc k) (inflight rt)\<rparr>
      | next # rest \<Rightarrow>
          rt\<lparr>store := st',
             inflight := (inflight rt)[k := \<lparr>awaiting = next, remaining = rest\<rparr>],
             fetchLog := fetchLog rt @ [id_q next]\<rparr>)"
    by (rule resume_continue [OF k h'])
  have t: "case remaining ?p of
              [] \<Rightarrow> inflight (processQueue_resume k oc now rt) =
                      take k (inflight rt) @ drop (Suc k) (inflight rt) \<and>
                    fetchLog (processQueue_resume k oc now rt) = fetchLog rt
            | next # rest \<Rightarrow>
                inflight (processQueue_resume k oc now rt) =
                  (inflight rt)[k := \<lparr>awaiting = next, remaining = rest\<rparr>] \<and>
                fetchLog (processQueue_resume k oc now rt) = fetchLog rt @ [id_q next]"
  proof (cases "remaining ?p")
    case Nil
    then show ?thesis using e by simp
  next
    case (Cons n rs)
    then show ?thesis using e by simp
  qed
  show ?thesis using k r(1) r(2) r(3) t by blast
qed

text \<open>
  Whatever the events before: an id leaves the queue only in the step that handles a
  response with a status in 200..299 or in 400..499 for the entry a pass in flight is
  delivering, and that entry has this id. The pass then goes on to its next entry, or
  ends if it has none.
\<close>

lemma removal_only_when_2xx_or_4xx_handled:
  assumes "i \<in> set (map id_q (queue (store (run evs rt0))))"
    and "i \<notin> set (map id_q (queue (store (run (evs @ [ev]) rt0))))"
  shows "\<exists>k code now. ev = Settled k (Response code) now \<and>
           k < length (inflight (run evs rt0)) \<and>
           id_q (awaiting (inflight (run evs rt0) ! k)) = i \<and>
           ((200 \<le> code \<and> code \<le> 299) \<noteq> (400 \<le> code \<and> code \<le> 499)) \<and>
           (case remaining (inflight (run evs rt0) ! k) of
              [] \<Rightarrow> inflight (run (evs @ [ev]) rt0) =
                      take k (inflight (run evs rt0)) @ drop (Suc k) (inflight (run evs rt0)) \<and>
                    fetchLog (run (evs @ [ev]) rt0) = fetchLog (run evs rt0)
            | next # rest \<Rightarrow>
                inflight (run (evs @ [ev]) rt0) =
                  (inflight (run evs rt0))[k := \<lparr>awaiting = next, remaining = rest\<rparr>] \<and>
                fetchLog (run (evs @ [ev]) rt0) = fetchLog (run evs rt0) @ [id_q next])"
proof -
  let ?rt = "run evs rt0"
  have a2: "i \<notin> set (map id_q (queue (store (step ev ?rt))))"
    using assms(2) by (simp add: run_snoc)
  show ?thesis
  proof (cases ev)
    case (Enqueue request genId now genRequestId)
    then show ?thesis using assms(1) a2 ids_addToQueue_call [of ?rt request genId now genRequestId]
      by auto
  next
    case (NetInfoChange c r)
    then show ?thesis using assms(1) a2 by (auto simp: queue_processQueue_call split: if_splits)
  next
    case (AppStateChange s)
    then show ?thesis using assms(1) a2 by (auto simp: queue_processQueue_call split: if_splits)
  next
    case (Interval now)
    then show ?thesis using assms(1) a2 by (auto simp: queue_processQueue_call split: if_splits)
  next
    case Manual
    then show ?thesis using assms(1) a2 by (auto simp: queue_processQueue_call)
  next
    case (Settled k oc now)
    then have "i \<notin> set (map id_q (queue (store (processQueue_resume k oc now ?rt))))"
      using a2 by simp
    from resume_removes [OF assms(1) this]
    obtain code where r: "oc = Response code" "k < length (inflight ?rt)"
      "id_q (awaiting (inflight ?rt ! k)) = i"
      "(200 \<le> code \<and> code \<le> 299) \<noteq> (400 \<le> code \<and> code \<le> 499)"
      "case remaining (inflight ?rt ! k) of
              [] \<Rightarrow> inflight (processQueue_resume k oc now ?rt) =
                      take k (inflight ?rt) @ drop (Suc k) (inflight ?rt) \<and>
                    fetchLog (processQueue_resume k oc now ?rt) = fetchLog ?rt
            | next # rest \<Rightarrow>
                inflight (processQueue_resume k oc now ?rt) =
                  (inflight ?rt)[k := \<lparr>awaiting = next, remaining = rest\<rparr>] \<and>
                fetchLog (processQueue_resume k oc now ?rt) = fetchLog ?rt @ [id_q next]"
      by blast
    have e: "run (evs @ [ev]) rt0 = processQueue_resume k oc now ?rt"
      using Settled by (simp add: run_snoc)
    have "ev = Settled k (Response code) now" using Settled r(1) by simp
    then show ?thesis using r(2) r(3) r(4) r(5) unfolding e by blast
  qed
qed

lemma resume_no_pass: "inflight rt = [] \<Longrightarrow> processQueue_resume k oc now rt = rt"
  by (simp add: processQueue_resume_def)

lemma run_settled_no_pass:
  "inflight rt = [] \<Longrightarrow> run (map (\<lambda>i. Settled 0 (fst (env i)) (snd (env i))) ks) rt = rt"
  by (induction ks arbitrary: rt) (simp_all add: resume_no_pass)

lemma uninterrupted_loop:
  "inflight rt = [\<lparr>awaiting = action, remaining = rest\<rparr>] \<Longrightarrow>
   fetchLog rt = fetched @ [id_q action] \<Longrightarrow>
   run (map (\<lambda>i. Settled 0 (fst (env i)) (snd (env i))) [i..<i + Suc (length rest)]) rt =
     rt\<lparr>store := (fst (processLoop env i (action # rest) (store rt, fetched)))\<lparr>isProcessing := False\<rparr>,
        inflight := [],
        fetchLog := snd (processLoop env i (action # rest) (store rt, fetched))\<rparr>"
proof (induction rest arbitrary: rt action i fetched)
  case Nil
  obtain st' c where h: "handleOutcome action (fst (env i)) (snd (env i)) (store rt) = (st', c)"
    by (cases "handleOutcome action (fst (env i)) (snd (env i)) (store rt)") auto
  show ?case using Nil h by (simp add: processQueue_resume_def Let_def)
next
  case (Cons nxt rest)
  obtain st' c where h: "handleOutcome action (fst (env i)) (snd (env i)) (store rt) = (st', c)"
    by (cases "handleOutcome action (fst (env i)) (snd (env i)) (store rt)") auto
  have upt: "[i..<i + Suc (length (nxt # rest))] = i # [Suc i..<Suc i + Suc (length rest)]"
    by (simp add: upt_rec)
  show ?case
  proof (cases c)
    case True
    let ?rt1 = "rt\<lparr>store := st', inflight := [\<lparr>awaiting = nxt, remaining = rest\<rparr>],
                   fetchLog := fetchLog rt @ [id_q nxt]\<rparr>"
    have s: "processQueue_resume 0 (fst (env i)) (snd (env i)) rt = ?rt1"
      using Cons.prems h True by (simp add: processQueue_resume_def Let_def)
    have i1: "inflight ?rt1 = [\<lparr>awaiting = nxt, remaining = rest\<rparr>]" by simp
    have f1: "fetchLog ?rt1 = (fetched @ [id_q action]) @ [id_q nxt]" using Cons.prems by simp
    show ?thesis
      using Cons.IH [of ?rt1 nxt "fetched @ [id_q action]" "Suc i", OF i1 f1] s h True upt
      by simp
  next
    case False
    let ?rt1 = "rt\<lparr>store := st'\<lparr>isProcessing := False\<rparr>, inflight := []\<rparr>"
    have s: "processQueue_resume 0 (fst (env i)) (snd (env i)) rt = ?rt1"
      using Cons.prems h False by (simp add: processQueue_resume_def Let_def)
    have "run (map (\<lambda>i. Settled 0 (fst (env i)) (snd (env i))) [Suc i..<Suc i + Suc (length rest)]) ?rt1 = ?rt1"
      by (rule run_settled_no_pass) simp
    then show ?thesis using s h False upt Cons.prems by simp
  qed
qed

text \<open>
  The two readings of \<open>processQueue\<close> agree: a pass started with nothing else in flight and
  settled fetch by fetch with no other event in between leaves the store and the fetch
  log as the loop run to completion does.
\<close>

lemma uninterrupted_pass_is_processQueue:
  assumes "inflight rt = []"
  shows "run (Manual # map (\<lambda>i. Settled 0 (fst (env i)) (snd (env i)))
                         [0..<length (queue (store rt))]) rt =
     rt\<lparr>store := fst (processQueue env (store rt, fetchLog rt)),
        fetchLog := snd (processQueue env (store rt, fetchLog rt))\<rparr>"
proof (cases "queue (store rt)")
  case Nil
  then show ?thesis using assms by (simp add: processQueue_call_def processQueue_def)
next
  case (Cons action rest)
  let ?rt0 = "rt\<lparr>store := (store rt)\<lparr>isProcessing := True\<rparr>,
             inflight := [\<lparr>awaiting = action, remaining = rest\<rparr>],
             fetchLog := fetchLog rt @ [id_q action]\<rparr>"
  have c: "processQueue_call rt = ?rt0" using Cons assms by (simp add: processQueue_call_def)
  have i0: "inflight ?rt0 = [\<lparr>awaiting = action, remaining = rest\<rparr>]" by simp
  have f0: "fetchLog ?rt0 = fetchLog rt @ [id_q action]" by simp
  obtain st' f' where p: "processLoop env 0 (action # rest) ((store rt)\<lparr>isProcessing := True\<rparr>, fetchLog rt) = (st', f')"
    by (cases "processLoop env 0 (action # rest) ((store rt)\<lparr>isProcessing := True\<rparr>, fetchLog rt)") auto
  have "run (map (\<lambda>i. Settled 0 (fst (env i)) (snd (env i))) [0..<0 + Suc (length rest)]) ?rt0 =
     ?rt0\<lparr>store := (fst (processLoop env 0 (action # rest) (store ?rt0, fetchLog rt)))\<lparr>isProcessing := False\<rparr>,
        inflight := [],
        fetchLog := snd (processLoop env 0 (action # rest) (store ?rt0, fetchLog rt))\<rparr>"
    by (rule uninterrupted_loop [OF i0 f0])
  then show ?thesis using Cons c p assms by (simp add: processQueue_def)
qed

text \<open>
  The timer callback starts a pass when some entry holds a \<open>Date\<close> that has elapsed, and
  not for a retry time still ahead, for an entry without one, or for a retry time read
  back from storage as a string.
\<close>

lemma interval_trigger_examples:
  "hasReadyRequests [sampleEntry ''a'' 1 None (Some (DateObject 10))] 100 \<and>
   \<not> hasReadyRequests [sampleEntry ''a'' 1 None (Some (DateObject 200))] 100 \<and>
   \<not> hasReadyRequests [sampleEntry ''a'' 1 None None] 100 \<and>
   \<not> hasReadyRequests [sampleEntry ''a'' 1 None (Some (IsoString 10))] 100 \<and>
   fetchLog (step (Interval 100)
     \<lparr>store = \<lparr>queue = [sampleEntry ''a'' 1 None (Some (DateObject 10))],
                     isProcessing = False\<rparr>, inflight = [], fetchLog = []\<rparr>) = [''a''] \<and>
   fetchLog (step (Interval 100)
     \<lparr>store = \<lparr>queue = [sampleEntry ''a'' 1 None (Some (DateObject 200))],
                     isProcessing = False\<rparr>, inflight = [], fetchLog = []\<rparr>) = []"
  by (simp add: hasReadyRequests_def sampleEntry_def processQueue_call_def)

subsection \<open>Retryable failures\<close>




subsection \<open>Order of delivery\<close>

text \<open>
  C2 (as the code has it). A pass fetches the entries of its snapshot in queue order,
  skipping none, and ends right after the first entry whose delivery returns a status of
  500 or more or fails with a network error; if there is none it fetches them all.
  \<open>nextRetryAt\<close> is not read: an entry whose retry time lies in the future is fetched like
  any other.
\<close>

theorem pass_fetches_prefix_in_queue_order:
  "snd (processQueue env (st, fetched)) =
     fetched @ map id_q (take (Suc (length (takeWhile (\<lambda>k. \<not> stopsPass (fst (env k)))
                                                     [0..<length (queue st)]))) (queue st))"
proof (cases "queue st = []")
  case True
  then show ?thesis by (simp add: processQueue_def)
next
  case False
  obtain st' f' where
    h: "processLoop env 0 (queue st) (st\<lparr>isProcessing := True\<rparr>, fetched) = (st', f')"
    by (cases "processLoop env 0 (queue st) (st\<lparr>isProcessing := True\<rparr>, fetched)") auto
  have "f' = fetched @ map id_q (take (Suc (length (takeWhile
                (\<lambda>k. \<not> stopsPass (fst (env k))) [0..<0 + length (queue st)]))) (queue st))"
    using fetched_processLoop [of env 0 "queue st" "st\<lparr>isProcessing := True\<rparr>" fetched] h
    by simp
  then show ?thesis using False h by (simp add: processQueue_def)
qed

text \<open>
  The claim as written fails: at time 1000 the head entry is not eligible until 60000,
  yet the pass delivers it, and the entry behind it as well.
\<close>

theorem drain_stops_at_ineligible_entry_counterexample:
  "nextRetryAt (sampleEntry ''a'' 1 None (Some (DateObject 60000))) = Some (DateObject 60000) \<and>
   (1000::int) < 60000 \<and>
   snd (processQueue (sameOutcome (Response 200) 1000)
     (\<lparr>queue = [sampleEntry ''a'' 1 None (Some (DateObject 60000)),
                sampleEntry ''b'' 0 None None],
       isProcessing = False\<rparr>, [])) = [''a'', ''b'']"
  by (simp add: processQueue_def sampleEntry_def sameOutcome_def ok_def removeFromQueue_def)

subsection \<open>Terminal responses for one request\<close>

text \<open>
  C3 (what the code does). A request is enqueued, which starts a pass, and the app comes
  to the foreground before the fetch settles, which starts a second pass over the same
  entry. The first fetch to settle is answered 201 and the entry is removed, while the
  second pass is still waiting for its fetch of the removed entry; that fetch is then
  answered 409 and handled as well. With the answers the other way round the entry is
  removed on the 409 and the 201 comes after. Either way the request has had both a 2xx
  and a 4xx response.
\<close>

theorem overlapping_passes_give_request_two_terminal_responses:
  "map id_q (queue (store (run [Enqueue sampleInput ''a'' 0 ''r'', AppStateChange Active]
                             initial))) = [''a''] \<and>
   fetchLog (run [Enqueue sampleInput ''a'' 0 ''r'', AppStateChange Active] initial) =
     [''a'', ''a''] \<and>
   map id_q (queue (store (run [Enqueue sampleInput ''a'' 0 ''r'', AppStateChange Active,
                                Settled 0 (Response 201) 5] initial))) = [] \<and>
   map id_q (map awaiting (inflight (run [Enqueue sampleInput ''a'' 0 ''r'',
                AppStateChange Active, Settled 0 (Response 201) 5] initial))) = [''a''] \<and>
   inflight (run [Enqueue sampleInput ''a'' 0 ''r'', AppStateChange Active,
                  Settled 0 (Response 201) 5, Settled 0 (Response 409) 6] initial) = [] \<and>
   map id_q (queue (store (run [Enqueue sampleInput ''a'' 0 ''r'', AppStateChange Active,
                                Settled 0 (Response 409) 5] initial))) = [] \<and>
   map id_q (map awaiting (inflight (run [Enqueue sampleInput ''a'' 0 ''r'',
                AppStateChange Active, Settled 0 (Response 409) 5] initial))) = [''a''] \<and>
   inflight (run [Enqueue sampleInput ''a'' 0 ''r'', AppStateChange Active,
                  Settled 0 (Response 409) 5, Settled 0 (Response 201) 6] initial) = []"
  by (simp add: initial_def addToQueue_call_def processQueue_call_def newRequest_def Let_def
        processQueue_resume_def ok_def removeFromQueue_def)

subsection \<open>Passes in flight\<close>

text \<open>
  C4 (what the code does). \<open>addToQueue\<close> looks at \<open>isProcessing\<close> before it calls
  \<open>processQueue\<close>, so a second enqueue during a pass starts nothing: its entry is not
  fetched by the pass in flight and is fetched by the next pass. \<open>processQueue\<close> itself does not look at the flag: when the
  app comes to the foreground, the network returns or the pass is asked for by hand while
  the first fetch is still pending, a second pass is started over the same entry, which
  is then fetched twice.
\<close>

theorem trigger_during_pass_starts_second_pass:
  "isProcessing (store (run [Enqueue sampleInput ''a'' 0 ''r''] initial)) \<and>
   length (inflight (run [Enqueue sampleInput ''a'' 0 ''r''] initial)) = 1 \<and>
   length (inflight (run [Enqueue sampleInput ''a'' 0 ''r'',
                          Enqueue sampleInput ''b'' 1 ''s''] initial)) = 1 \<and>
   fetchLog (run [Enqueue sampleInput ''a'' 0 ''r'',
                  Enqueue sampleInput ''b'' 1 ''s''] initial) = [''a''] \<and>
   map id_q (queue (store (run [Enqueue sampleInput ''a'' 0 ''r'',
                  Enqueue sampleInput ''b'' 1 ''s''] initial))) = [''a'', ''b''] \<and>
   length (inflight (run [Enqueue sampleInput ''a'' 0 ''r'', AppStateChange Active] initial)) = 2 \<and>
   fetchLog (run [Enqueue sampleInput ''a'' 0 ''r'', AppStateChange Active] initial) =
     [''a'', ''a''] \<and>
   fetchLog (run [Enqueue sampleInput ''a'' 0 ''r'',
                  NetInfoChange (Some True) (Some True)] initial) = [''a'', ''a''] \<and>
   fetchLog (run [Enqueue sampleInput ''a'' 0 ''r'', Manual] initial) = [''a'', ''a''] \<and>
   fetchLog (run [Enqueue sampleInput ''a'' 0 ''r'', Enqueue sampleInput ''b'' 1 ''s'',
                  Settled 0 (Response 200) 5] initial) = [''a''] \<and>
   inflight (run [Enqueue sampleInput ''a'' 0 ''r'', Enqueue sampleInput ''b'' 1 ''s'',
                  Settled 0 (Response 200) 5] initial) = [] \<and>
   fetchLog (run [Enqueue sampleInput ''a'' 0 ''r'', Enqueue sampleInput ''b'' 1 ''s'',
                  Settled 0 (Response 200) 5, Manual] initial) = [''a'', ''b'']"
  by (simp add: initial_def addToQueue_call_def processQueue_call_def newRequest_def Let_def
        processQueue_resume_def ok_def removeFromQueue_def)

subsection \<open>No cap on retries\<close>

text \<open>
  C5 (as the code has it). Retryable failures are retried without end whether or not
  \<open>maxAttempts\<close> is set. Take any queue with \<open>entry\<close> at its head, whatever its \<open>attempts\<close>
  and \<open>maxAttempts\<close>, and any number of passes in each of which the delivery of the head
  returns a status of 500 or more or fails with a network error: afterwards the queue
  holds the same ids in the same places with the same caps, and every one of the passes
  has fetched the head entry again and nothing else. \<open>maxAttempts\<close> is never read and no
  entry is dropped for the number of its attempts.
\<close>

theorem retryable_failures_retried_whatever_maxAttempts:
  assumes "\<forall>env \<in> set envs. stopsPass (fst (env 0))" and "queue st = entry # others"
  shows "map id_q (queue (fst (drainPasses envs (st, fetched)))) = map id_q (queue st) \<and>
         map maxAttempts (queue (fst (drainPasses envs (st, fetched)))) =
           map maxAttempts (queue st) \<and>
         snd (drainPasses envs (st, fetched)) = fetched @ replicate (length envs) (id_q entry)"
  using assms
proof (induction envs arbitrary: st fetched entry others)
  case Nil
  then show ?case by simp
next
  case (Cons env envs)
  obtain st1 f1 where w: "processQueue env (st, fetched) = (st1, f1)"
    by (cases "processQueue env (st, fetched)") auto
  have s: "stopsPass (fst (env 0))" using Cons.prems(1) by simp
  have p: "map id_q (queue st1) = map id_q (queue st)"
          "map maxAttempts (queue st1) = map maxAttempts (queue st)"
          "f1 = fetched @ [id_q entry]"
    using pass_head_fails [of env st entry others fetched] s Cons.prems(2) w by simp_all
  obtain entry1 others1 where q1: "queue st1 = entry1 # others1"
    and e1: "id_q entry1 = id_q entry"
    using p(1) Cons.prems(2) by (cases "queue st1") auto
  have r: "\<forall>env \<in> set envs. stopsPass (fst (env 0))" using Cons.prems(1) by simp
  show ?case using Cons.IH [of st1 entry1 others1 f1] r q1 w p e1
    by (simp add: replicate_append_same)
qed

theorem retryable_failures_retried_whatever_maxAttempts_witness:
  "stopsPass (fst (sameOutcome (Response 503) 1000 0)) \<and>
   stopsPass (fst (sameOutcome NetworkError 2000 0)) \<and>
   stopsPass (fst (sameOutcome (Response 500) 3000 0)) \<and>
   queue \<lparr>queue = [sampleEntry ''a'' 1 (Some 1) None], isProcessing = False\<rparr> =
     sampleEntry ''a'' 1 (Some 1) None # [] \<and>
   map id_q (queue (fst (drainPasses [sameOutcome (Response 503) 1000,
       sameOutcome NetworkError 2000, sameOutcome (Response 500) 3000]
       (\<lparr>queue = [sampleEntry ''a'' 1 (Some 1) None], isProcessing = False\<rparr>, [])))) = [''a''] \<and>
   map maxAttempts (queue (fst (drainPasses [sameOutcome (Response 503) 1000,
       sameOutcome NetworkError 2000, sameOutcome (Response 500) 3000]
       (\<lparr>queue = [sampleEntry ''a'' 1 (Some 1) None], isProcessing = False\<rparr>, [])))) = [Some 1] \<and>
   snd (drainPasses [sameOutcome (Response 503) 1000,
       sameOutcome NetworkError 2000, sameOutcome (Response 500) 3000]
       (\<lparr>queue = [sampleEntry ''a'' 1 (Some 1) None], isProcessing = False\<rparr>, [])) =
     [''a'', ''a'', ''a'']"
proof -
  have h1: "\<forall>env \<in> set [sameOutcome (Response 503) 1000, sameOutcome NetworkError 2000,
                 sameOutcome (Response 500) 3000]. stopsPass (fst (env 0))"
    by (simp add: sameOutcome_def)
  have h2: "queue \<lparr>queue = [sampleEntry ''a'' 1 (Some 1) None], isProcessing = False\<rparr> =
     sampleEntry ''a'' 1 (Some 1) None # []" by simp
  have i: "id_q (sampleEntry ''a'' 1 (Some 1) None) = ''a''"
    "maxAttempts (sampleEntry ''a'' 1 (Some 1) None) = Some 1"
    by (simp_all add: sampleEntry_def)
  show ?thesis
    using h1 h2 i retryable_failures_retried_whatever_maxAttempts [OF h1 h2, of "[]"]
    by (simp add: numeral_3_eq_3)
qed

text \<open>
  The claim as written fails: an entry capped at three attempts stays in the queue when
  its third delivery fails, and again when its fourth does.
\<close>

theorem entry_dropped_at_maxAttempts_counterexample:
  "map id_q (queue (fst (drainPasses [sameOutcome (Response 503) 1000]
        (\<lparr>queue = [sampleEntry ''a'' 2 (Some 3) None], isProcessing = False\<rparr>, [])))) =
     [''a''] \<and>
   map attempts (queue (fst (drainPasses [sameOutcome (Response 503) 1000]
        (\<lparr>queue = [sampleEntry ''a'' 2 (Some 3) None], isProcessing = False\<rparr>, [])))) =
     [3] \<and>
   map maxAttempts (queue (fst (drainPasses [sameOutcome (Response 503) 1000]
        (\<lparr>queue = [sampleEntry ''a'' 2 (Some 3) None], isProcessing = False\<rparr>, [])))) =
     [Some 3] \<and>
   map id_q (queue (fst (drainPasses
        [sameOutcome (Response 503) 1000, sameOutcome (Response 503) 2000]
        (\<lparr>queue = [sampleEntry ''a'' 2 (Some 3) None], isProcessing = False\<rparr>, [])))) =
     [''a''] \<and>
   map attempts (queue (fst (drainPasses
        [sameOutcome (Response 503) 1000, sameOutcome (Response 503) 2000]
        (\<lparr>queue = [sampleEntry ''a'' 2 (Some 3) None], isProcessing = False\<rparr>, [])))) =
     [4]"
  by (simp add: processQueue_def sameOutcome_def sampleEntry_def ok_def updateRequest_def
        retryUpdates_def Let_def)

subsection \<open>The 503, 503, 503, 200 scenario\<close>

text \<open>
  C8. Starting from the empty queue, a POST is enqueued; the pass that \<open>addToQueue\<close> starts
  and the next two passes each get a 503 for it, at the times \<open>t1\<close>, \<open>t2\<close>, \<open>t3\<close>, and the
  fourth pass gets a 200. After the three failures the entry carries the retry delays
  30000 ms, 60000 ms and 120000 ms (\<open>nextRetryAt\<close> minus \<open>lastAttemptAt\<close>); after the fourth
  delivery the queue is empty, with four fetches made in all.
\<close>

theorem scenario_three_503_then_200:
  "map (\<lambda>r. (attempts r, lastAttemptAt r, nextRetryAt r))
      (queue (fst (addToQueue (request\<lparr>method_q := POST\<rparr>) genId t0 genRequestId
                     (sameOutcome (Response 503) t1) (\<lparr>queue = [], isProcessing = False\<rparr>, []))))
     = [(1, Some (DateObject t1), Some (DateObject (t1 + 30000)))] \<and>
   map (\<lambda>r. (attempts r, lastAttemptAt r, nextRetryAt r))
      (queue (fst (drainPasses [sameOutcome (Response 503) t2]
         (addToQueue (request\<lparr>method_q := POST\<rparr>) genId t0 genRequestId
                     (sameOutcome (Response 503) t1) (\<lparr>queue = [], isProcessing = False\<rparr>, [])))))
     = [(2, Some (DateObject t2), Some (DateObject (t2 + 60000)))] \<and>
   map (\<lambda>r. (attempts r, lastAttemptAt r, nextRetryAt r))
      (queue (fst (drainPasses [sameOutcome (Response 503) t2, sameOutcome (Response 503) t3]
         (addToQueue (request\<lparr>method_q := POST\<rparr>) genId t0 genRequestId
                     (sameOutcome (Response 503) t1) (\<lparr>queue = [], isProcessing = False\<rparr>, [])))))
     = [(3, Some (DateObject t3), Some (DateObject (t3 + 120000)))] \<and>
   drainPasses [sameOutcome (Response 503) t2, sameOutcome (Response 503) t3,
                sameOutcome (Response 200) t4]
         (addToQueue (request\<lparr>method_q := POST\<rparr>) genId t0 genRequestId
                     (sameOutcome (Response 503) t1) (\<lparr>queue = [], isProcessing = False\<rparr>, []))
     = (\<lparr>queue = [], isProcessing = False\<rparr>, [genId, genId, genId, genId]) \<and>
   getQueueLength (fst (drainPasses [sameOutcome (Response 503) t2,
                sameOutcome (Response 503) t3, sameOutcome (Response 200) t4]
         (addToQueue (request\<lparr>method_q := POST\<rparr>) genId t0 genRequestId
                     (sameOutcome (Response 503) t1) (\<lparr>queue = [], isProcessing = False\<rparr>, []))))
     = 0"
  by (simp add: addToQueue_def processQueue_def newRequest_def sameOutcome_def ok_def
        updateRequest_def retryUpdates_def backoffMs_def removeFromQueue_def Let_def
        getQueueLength_def)

subsection \<open>Recorded delays under overlapping passes\<close>

text \<open>
  C9 (what the code does). A request is enqueued, which starts a pass, and a second pass
  is started by hand before the fetch settles; both hold the entry with \<open>attempts = 0\<close> in
  their snapshots. The second pass gets a 503: the entry is given one attempt and a delay
  of 30000 ms. A third pass, started after that, gets a 503: two attempts, 60000 ms. Then
  the fetch of the first pass settles with a 503, and the entry is written from that
  pass's snapshot: one attempt, 30000 ms. The three consecutive failures of the entry
  have recorded the delays 30000, 60000 and 30000.
\<close>

theorem overlapping_passes_lower_recorded_delay:
  "fetchLog (run [Enqueue sampleInput ''a'' 0 ''r'', Manual] initial) = [''a'', ''a''] \<and>
   map attempts (queue (store (run [Enqueue sampleInput ''a'' 0 ''r'', Manual,
       Settled 1 (Response 503) 1000] initial))) = [1] \<and>
   map delayOf (queue (store (run [Enqueue sampleInput ''a'' 0 ''r'', Manual,
       Settled 1 (Response 503) 1000] initial))) = [Some 30000] \<and>
   map attempts (queue (store (run [Enqueue sampleInput ''a'' 0 ''r'', Manual,
       Settled 1 (Response 503) 1000, Manual, Settled 1 (Response 503) 2000] initial))) =
     [2] \<and>
   map delayOf (queue (store (run [Enqueue sampleInput ''a'' 0 ''r'', Manual,
       Settled 1 (Response 503) 1000, Manual, Settled 1 (Response 503) 2000] initial))) =
     [Some 60000] \<and>
   map attempts (queue (store (run [Enqueue sampleInput ''a'' 0 ''r'', Manual,
       Settled 1 (Response 503) 1000, Manual, Settled 1 (Response 503) 2000,
       Settled 0 (Response 503) 3000] initial))) = [1] \<and>
   map delayOf (queue (store (run [Enqueue sampleInput ''a'' 0 ''r'', Manual,
       Settled 1 (Response 503) 1000, Manual, Settled 1 (Response 503) 2000,
       Settled 0 (Response 503) 3000] initial))) = [Some 30000] \<and>
   fetchLog (run [Enqueue sampleInput ''a'' 0 ''r'', Manual,
       Settled 1 (Response 503) 1000, Manual, Settled 1 (Response 503) 2000,
       Settled 0 (Response 503) 3000] initial) = [''a'', ''a'', ''a'']"
  by (simp add: initial_def addToQueue_call_def processQueue_call_def newRequest_def Let_def
        processQueue_resume_def ok_def updateRequest_def retryUpdates_def backoffMs_def
        delayOf_def)

subsection \<open>Statuses from 300 to 399\<close>

text \<open>
  C10 (as the code has it). A delivery that returns a status in 300..399 neither removes
  nor updates the entry: the store is left exactly as it was, so \<open>attempts\<close> and
  \<open>nextRetryAt\<close> keep their values, and the loop goes on to the next entry of the snapshot
  in the same pass. An entry whose deliveries all return such a status is still in the
  queue, unchanged, after any number of passes, whether a pass reaches it or not. A later pass fetches the entry at
  position \<open>j\<close> of its snapshot exactly when none of the entries before it ends the pass
  with a status of 500 or more or a network error; no retry time is consulted. A pass
  that ends earlier does not reach it.
\<close>

theorem redirect_status_leaves_queue_and_continues:
  "(fst (env i) = Response code \<and> 300 \<le> code \<and> code \<le> 399 \<longrightarrow>
      handleOutcome action (fst (env i)) (snd (env i)) st = (st, True) \<and>
      processLoop env i (action # rest) (st, fetched) =
        processLoop env (i + 1) rest (st, fetched @ [id_q action])) \<and>
   (entry \<in> set (queue st) \<and> redirectedIn envs (st, fetched) (id_q entry) \<longrightarrow>
      entry \<in> set (queue (fst (drainPasses envs (st, fetched))))) \<and>
   (j < length (queue st) \<longrightarrow>
      (length fetched + j < length (snd (processQueue penv (st, fetched)))) =
        (\<forall>k<j. \<not> stopsPass (fst (penv k))) \<and>
      (length fetched + j < length (snd (processQueue penv (st, fetched))) \<longrightarrow>
         snd (processQueue penv (st, fetched)) ! (length fetched + j) = id_q (queue st ! j)))"
proof (intro conjI impI)
  assume a: "fst (env i) = Response code \<and> 300 \<le> code \<and> code \<le> 399"
  then show h: "handleOutcome action (fst (env i)) (snd (env i)) st = (st, True)"
    by (simp add: ok_def)
  then show "processLoop env i (action # rest) (st, fetched) =
        processLoop env (i + 1) rest (st, fetched @ [id_q action])"
    by simp
next
  assume "entry \<in> set (queue st) \<and> redirectedIn envs (st, fetched) (id_q entry)"
  then show "entry \<in> set (queue (fst (drainPasses envs (st, fetched))))"
    using kept_drainPasses [of entry st envs fetched] by simp
next
  assume "j < length (queue st)"
  then show "(length fetched + j < length (snd (processQueue penv (st, fetched)))) =
        (\<forall>k<j. \<not> stopsPass (fst (penv k)))"
    by (rule reached_processQueue)
next
  assume "length fetched + j < length (snd (processQueue penv (st, fetched)))"
  then show "snd (processQueue penv (st, fetched)) ! (length fetched + j) = id_q (queue st ! j)"
    by (rule nth_fetched_processQueue)
qed

theorem redirect_status_leaves_queue_and_continues_witness:
  "fst (sameOutcome (Response 304) 5 0) = Response 304 \<and> (300::nat) \<le> 304 \<and>
   (304::nat) \<le> 399 \<and>
   processLoop (sameOutcome (Response 304) 5) 0
       (sampleEntry ''a'' 0 None None # [sampleEntry ''b'' 0 None None])
       (\<lparr>queue = [sampleEntry ''a'' 0 None None, sampleEntry ''b'' 0 None None],
         isProcessing = True\<rparr>, []) =
     processLoop (sameOutcome (Response 304) 5) (0 + 1) [sampleEntry ''b'' 0 None None]
       (\<lparr>queue = [sampleEntry ''a'' 0 None None, sampleEntry ''b'' 0 None None],
         isProcessing = True\<rparr>, [] @ [id_q (sampleEntry ''a'' 0 None None)]) \<and>
   sampleEntry ''b'' 0 None None \<in> set (queue
       \<lparr>queue = [sampleEntry ''a'' 0 None None, sampleEntry ''b'' 0 None None],
         isProcessing = True\<rparr>) \<and>
   redirectedIn [sameOutcome (Response 304) 5, sameOutcome (Response 503) 6]
       (\<lparr>queue = [sampleEntry ''a'' 0 None None, sampleEntry ''b'' 0 None None],
         isProcessing = True\<rparr>, []) (id_q (sampleEntry ''b'' 0 None None)) \<and>
   sampleEntry ''b'' 0 None None \<in> set (queue (fst (drainPasses
       [sameOutcome (Response 304) 5, sameOutcome (Response 503) 6]
       (\<lparr>queue = [sampleEntry ''a'' 0 None None, sampleEntry ''b'' 0 None None],
         isProcessing = True\<rparr>, [])))) \<and>
   (1::nat) < length (queue
       \<lparr>queue = [sampleEntry ''a'' 0 None None, sampleEntry ''b'' 0 None None],
         isProcessing = True\<rparr>) \<and>
   length ([]::string list) + 1 < length (snd (processQueue (sameOutcome (Response 304) 5)
       (\<lparr>queue = [sampleEntry ''a'' 0 None None, sampleEntry ''b'' 0 None None],
         isProcessing = True\<rparr>, []))) \<and>
   snd (processQueue (sameOutcome (Response 304) 5)
       (\<lparr>queue = [sampleEntry ''a'' 0 None None, sampleEntry ''b'' 0 None None],
         isProcessing = True\<rparr>, [])) ! (length ([]::string list) + 1) =
     id_q (queue \<lparr>queue = [sampleEntry ''a'' 0 None None, sampleEntry ''b'' 0 None None],
         isProcessing = True\<rparr> ! 1)"
proof -
  let ?a = "sampleEntry ''a'' 0 None None"
  let ?b = "sampleEntry ''b'' 0 None None"
  let ?st = "\<lparr>queue = [?a, ?b], isProcessing = True\<rparr>"
  let ?e1 = "sameOutcome (Response 304) 5"
  let ?e2 = "sameOutcome (Response 503) 6"
  have h1: "fst (?e1 0) = Response 304 \<and> (300::nat) \<le> 304 \<and> (304::nat) \<le> 399"
    by (simp add: sameOutcome_def)
  have h2: "?b \<in> set (queue ?st)" by simp
  have h3: "redirectedIn [?e1, ?e2] (?st, []) (id_q ?b)"
    by (simp add: processQueue_def sameOutcome_def ok_def sampleEntry_def)
  have h4: "(1::nat) < length (queue ?st)" by simp
  have h5: "\<forall>k<(1::nat). \<not> stopsPass (fst (?e1 k))" by (simp add: sameOutcome_def)
  note t = redirect_status_leaves_queue_and_continues
             [where env = ?e1 and i = 0 and code = 304 and action = ?a and rest = "[?b]"
                and st = ?st and fetched = "[]" and entry = ?b and envs = "[?e1, ?e2]"
                and j = 1 and penv = ?e1]
  have c1: "processLoop ?e1 0 (?a # [?b]) (?st, []) =
              processLoop ?e1 (0 + 1) [?b] (?st, [] @ [id_q ?a])"
    using t h1 by blast
  have c2: "?b \<in> set (queue (fst (drainPasses [?e1, ?e2] (?st, []))))"
    using t h2 h3 by blast
  have c3: "length ([]::string list) + 1 < length (snd (processQueue ?e1 (?st, [])))"
    using t h4 h5 by blast
  have c4: "snd (processQueue ?e1 (?st, [])) ! (length ([]::string list) + 1) =
              id_q (queue ?st ! 1)"
    using t h4 c3 by blast
  show ?thesis using h1 h2 h3 h4 c1 c2 c3 c4 by blast
qed

text \<open>
  The claim as written fails: with the entry \<open>a\<close> behind \<open>b\<close>, a first pass gets a 304 for
  both, and a second pass gets a 503 for \<open>b\<close>. The second pass ends at \<open>b\<close> and does not
  fetch \<open>a\<close> again.
\<close>

theorem redirected_entry_fetched_in_every_pass_counterexample:
  "snd (drainPasses [sameOutcome (Response 304) 5]
     (\<lparr>queue = [sampleEntry ''b'' 0 None None, sampleEntry ''a'' 0 None None],
       isProcessing = False\<rparr>, [])) = [''b'', ''a''] \<and>
   snd (drainPasses [sameOutcome (Response 304) 5, sameOutcome (Response 503) 6]
     (\<lparr>queue = [sampleEntry ''b'' 0 None None, sampleEntry ''a'' 0 None None],
       isProcessing = False\<rparr>, [])) = [''b'', ''a'', ''b''] \<and>
   map id_q (queue (fst (drainPasses [sameOutcome (Response 304) 5, sameOutcome (Response 503) 6]
     (\<lparr>queue = [sampleEntry ''b'' 0 None None, sampleEntry ''a'' 0 None None],
       isProcessing = False\<rparr>, [])))) = [''b'', ''a'']"
  by (simp add: processQueue_def sameOutcome_def sampleEntry_def ok_def updateRequest_def
        retryUpdates_def Let_def)

section \<open>Properties of the local order table\<close>

subsection \<open>The scan for unsynced orders\<close>

text \<open>
  C6 (as the code has it). \<open>findUnsyncedOrders\<close> returns exactly the rows with status
  \<open>paid\<close> whose sync status is anything but \<open>synced\<close>, each as often as the table holds it,
  in ascending order of \<open>created_at\<close>. A synced order is never returned; a pending, a
  failed and a syncing order are. The row has no count of failures, so a failed order is
  returned however often its sync has failed.
\<close>

theorem findUnsyncedOrders_paid_and_not_synced_oldest_first:
  "mset (findUnsyncedOrders tbl) =
     filter_mset (\<lambda>r. status r = ''paid'' \<and> sync_status r \<noteq> ''synced'') (mset tbl) \<and>
   sorted (map created_at (findUnsyncedOrders tbl))"
  by (simp add: findUnsyncedOrders_def)

text \<open>The claim as written fails: a paid order in state \<open>syncing\<close> is selected.\<close>

theorem syncing_order_never_selected_counterexample:
  "findUnsyncedOrders [sampleOrder ''o1'' ''paid'' ''syncing'' 5,
                       sampleOrder ''o2'' ''paid'' ''synced'' 1] =
     [sampleOrder ''o1'' ''paid'' ''syncing'' 5]"
  by (simp add: findUnsyncedOrders_def sampleOrder_def)

subsection \<open>The sync state of a synced order\<close>

text \<open>
  C7 (as the code has it). Let the row at position \<open>i\<close> be synced. An update of the
  repository leaves its sync state (sync status, sync error, synced-at time, platform
  order id) as it is when the update is \<open>updateOrderStatus\<close> or \<open>updateOrderPayment\<close>, or
  when it is addressed to another id. \<open>updateOrderSyncError\<close> and \<open>updateOrderSyncSuccess\<close>
  addressed to the row's own id do not look at its sync status: the first overwrites the
  sync status and the error, the second the platform order id and the synced-at time.
\<close>

theorem synced_order_sync_state_under_updates:
  assumes "i < length tbl" and "sync_status (tbl ! i) = ''synced''"
  shows "(\<not> writes_sync_columns u \<or> addressed u \<noteq> id_o (tbl ! i) \<longrightarrow>
            sync_state (apply_update u now tbl ! i) = sync_state (tbl ! i)) \<and>
         sync_state (updateOrderSyncError (id_o (tbl ! i)) s e now tbl ! i) =
           (s, Some e, synced_at (tbl ! i), platform_order_id (tbl ! i)) \<and>
         sync_state (updateOrderSyncSuccess (id_o (tbl ! i)) p now tbl ! i) =
           (''synced'', sync_error (tbl ! i), Some now, Some p)"
  using assms(1)
  by (cases u) (simp_all add: updateOrderStatus_def updateOrderPayment_def
        updateOrderSyncSuccess_def updateOrderSyncError_def update_where_id_def sync_state_def)

theorem synced_order_sync_state_under_updates_witness:
  "(0::nat) < length [sampleOrder ''o1'' ''paid'' ''synced'' 1,
                      sampleOrder ''o2'' ''paid'' ''pending'' 2] \<and>
   sync_status ([sampleOrder ''o1'' ''paid'' ''synced'' 1,
                 sampleOrder ''o2'' ''paid'' ''pending'' 2] ! 0) = ''synced'' \<and>
   addressed (UpdateOrderSyncError ''o2'' ''failed'' ''timeout'') \<noteq>
     id_o ([sampleOrder ''o1'' ''paid'' ''synced'' 1,
            sampleOrder ''o2'' ''paid'' ''pending'' 2] ! 0) \<and>
   sync_state (apply_update (UpdateOrderSyncError ''o2'' ''failed'' ''timeout'') 9
       [sampleOrder ''o1'' ''paid'' ''synced'' 1,
        sampleOrder ''o2'' ''paid'' ''pending'' 2] ! 0) =
     sync_state (sampleOrder ''o1'' ''paid'' ''synced'' 1)"
proof -
  let ?tbl = "[sampleOrder ''o1'' ''paid'' ''synced'' 1, sampleOrder ''o2'' ''paid'' ''pending'' 2]"
  have h1: "(0::nat) < length ?tbl" by simp
  have h2: "sync_status (?tbl ! 0) = ''synced''" by (simp add: sampleOrder_def)
  have h3: "addressed (UpdateOrderSyncError ''o2'' ''failed'' ''timeout'') \<noteq> id_o (?tbl ! 0)"
    by (simp add: sampleOrder_def)
  from synced_order_sync_state_under_updates
         [OF h1 h2, of "UpdateOrderSyncError ''o2'' ''failed'' ''timeout''" 9] h3
  have "sync_state (apply_update (UpdateOrderSyncError ''o2'' ''failed'' ''timeout'') 9 ?tbl ! 0) =
          sync_state (?tbl ! 0)"
    by blast
  then show ?thesis using h1 h2 h3 by simp
qed

text \<open>
  The claim as written fails: a synced order is set to \<open>failed\<close> with an error by
  \<open>updateOrderSyncError\<close>, and given another platform order id and synced-at time by
  \<open>updateOrderSyncSuccess\<close>.
\<close>

theorem synced_order_immutable_counterexample:
  "map sync_state [(sampleOrder ''o1'' ''paid'' ''synced'' 1)
                      \<lparr>synced_at := Some 5, platform_order_id := Some ''P1''\<rparr>]
     = [(''synced'', None, Some 5, Some ''P1'')] \<and>
   map sync_state (updateOrderSyncError ''o1'' ''failed'' ''timeout'' 9
     [(sampleOrder ''o1'' ''paid'' ''synced'' 1)
         \<lparr>synced_at := Some 5, platform_order_id := Some ''P1''\<rparr>])
     = [(''failed'', Some ''timeout'', Some 5, Some ''P1'')] \<and>
   map sync_state (updateOrderSyncSuccess ''o1'' ''P2'' 9
     [(sampleOrder ''o1'' ''paid'' ''synced'' 1)
         \<lparr>synced_at := Some 5, platform_order_id := Some ''P1''\<rparr>])
     = [(''synced'', None, Some 9, Some ''P2'')]"
  by (simp add: updateOrderSyncError_def updateOrderSyncSuccess_def update_where_id_def
        sync_state_def sampleOrder_def)

end
